theory Spec2Isabelle
  imports Complex_Main "HOL-Library.Log_Nat"
begin

section \<open>The cursor trail component (src/components/cursorTrail.tsx)\<close>

text \<open>
  The component keeps a bounded history of display points that chase the pointer, and
  turns it into an SVG path on every render. JavaScript numbers are modelled as
  \<^typ>\<open>real\<close>: additions, multiplications and divisions are the exact ones, and the one
  place where the source can produce a value that is no real number (a division by a
  zero count) is an explicit outcome of the model. The chase of the frame loop is modelled
  a second time with every operation rounded to IEEE 754 binary64, for the statements
  that depend on the rounding. Integer-valued numbers that the source uses as array
  indices are \<^typ>\<open>int\<close>; the id counter, which starts at 0 and is only incremented, is
  \<^typ>\<open>nat\<close>.
\<close>

subsection \<open>Data model\<close>

text \<open>\<^verbatim>\<open>interface Point { x: number; y: number; id: number; }\<close>; the two refs
  \<^verbatim>\<open>rawPos\<close> and \<^verbatim>\<open>displayPos\<close> hold the \<^verbatim>\<open>x\<close>, \<^verbatim>\<open>y\<close> part only.\<close>

record vec =
  x :: real
  y :: real

record point = vec +
  id' :: nat

text \<open>The hooks of one mounted component: three \<^verbatim>\<open>useState\<close> cells and three
  \<^verbatim>\<open>useRef\<close> cells.\<close>

record state =
  points :: "point list"
  isDesktop :: bool
  isEnabled :: bool
  rawPos :: vec
  displayPos :: vec
  pointId :: nat

definition initial_state :: state where
  "initial_state =
     \<lparr>points = [], isDesktop = True, isEnabled = True,
      rawPos = \<lparr>x = 0, y = 0\<rparr>, displayPos = \<lparr>x = 0, y = 0\<rparr>, pointId = 0\<rparr>"

definition MAX_POINTS :: nat where
  "MAX_POINTS = 80"

definition SMOOTHING_FACTOR :: real where
  "SMOOTHING_FACTOR = 0.75"

definition ITERATIONS_PER_FRAME :: nat where
  "ITERATIONS_PER_FRAME = 4"

text \<open>What a JavaScript evaluation can do besides returning a real-valued result:
  throw a \<^verbatim>\<open>TypeError\<close> (a property read on \<^verbatim>\<open>undefined\<close>), or yield
  \<^verbatim>\<open>NaN\<close> from \<^verbatim>\<open>0 / 0\<close>.\<close>

datatype js_error = TypeError | NotANumber

text \<open>\<^verbatim>\<open>arr[i].field\<close>: an index outside the array reads \<^verbatim>\<open>undefined\<close>, and the
  property access on it throws.\<close>

definition at_index :: "'a list \<Rightarrow> int \<Rightarrow> js_error + 'a" where
  "at_index xs i = (if 0 \<le> i \<and> i < int (length xs) then Inr (xs ! nat i) else Inl TypeError)"

subsection \<open>Input handlers\<close>

text \<open>A \<^verbatim>\<open>MouseEvent\<close> and a \<^verbatim>\<open>Touch\<close> both carry \<^verbatim>\<open>clientX\<close> and
  \<^verbatim>\<open>clientY\<close>; a \<^verbatim>\<open>TouchEvent\<close> carries the list \<^verbatim>\<open>touches\<close>.\<close>

record pointer =
  clientX :: real
  clientY :: real

definition check :: "state \<Rightarrow> bool \<Rightarrow> state" where
  \<comment> \<open>the second argument is the answer of \<^verbatim>\<open>matchMedia('(hover: hover)').matches\<close>\<close>
  "check s matches = s\<lparr>isDesktop := matches\<rparr>"

definition onMouse :: "state \<Rightarrow> pointer \<Rightarrow> state" where
  "onMouse s e =
     (if isDesktop s \<and> isEnabled s
      then s\<lparr>rawPos := \<lparr>x = clientX e, y = clientY e\<rparr>\<rparr>
      else s)"

definition onTouch :: "state \<Rightarrow> pointer list \<Rightarrow> js_error + state" where
  "onTouch s touches =
     (case at_index touches 0 of
        Inl err \<Rightarrow> Inl err
      | Inr t \<Rightarrow> Inr (s\<lparr>rawPos := \<lparr>x = clientX t, y = clientY t\<rparr>\<rparr>))"

definition onClick :: "state \<Rightarrow> state" where
  "onClick s = s\<lparr>isEnabled := \<not> isEnabled s\<rparr>"

subsection \<open>The frame loop\<close>

text \<open>The exponential chase of one sub-step, with the factor as an argument; the loop
  passes \<^const>\<open>SMOOTHING_FACTOR\<close>. The operations are the exact ones here; the next
  subsection has the same lines with every operation rounded.\<close>

definition advance :: "real \<Rightarrow> vec \<Rightarrow> vec \<Rightarrow> vec" where
  "advance f raw display =
     (let dx = x raw - x display;
          dy = y raw - y display
      in \<lparr>x = x display + dx * f, y = y display + dy * f\<rparr>)"

text \<open>One iteration of the \<^verbatim>\<open>for\<close> body: chase, then prepend a snapshot of the display
  position that takes the current value of the id counter, which is then incremented.\<close>

definition chase_push :: "state \<Rightarrow> point list \<Rightarrow> state \<times> point list" where
  "chase_push s tail =
     (let d = advance SMOOTHING_FACTOR (rawPos s) (displayPos s);
          p = \<lparr>x = x d, y = y d, id' = pointId s\<rparr>
      in (s\<lparr>displayPos := d, pointId := pointId s + 1\<rparr>, p # tail))"

function updater_loop :: "nat \<Rightarrow> state \<Rightarrow> point list \<Rightarrow> state \<times> point list" where
  "updater_loop i s tail =
     (if i < ITERATIONS_PER_FRAME
      then (case chase_push s tail of (s', tail') \<Rightarrow> updater_loop (i + 1) s' tail')
      else (s, tail))"
  by pat_completeness auto
termination
  by (relation "measure (\<lambda>(i, s, tail). ITERATIONS_PER_FRAME - i)") auto

text \<open>The function handed to \<^verbatim>\<open>setPoints\<close>: it writes the refs while it runs and
  returns the new value of \<^verbatim>\<open>points\<close>.\<close>

definition updater :: "state \<Rightarrow> point list \<Rightarrow> state \<times> point list" where
  "updater s prev =
     (case updater_loop 0 s prev of (s', tail) \<Rightarrow> (s', take MAX_POINTS tail))"

definition loop :: "state \<Rightarrow> state" where
  "loop s =
     (if isEnabled s \<and> isDesktop s
      then (case updater s (points s) of (s', pts) \<Rightarrow> s'\<lparr>points := pts\<rparr>)
      else s)"

subsection \<open>The chase in binary64\<close>

text \<open>A JavaScript number is an IEEE 754 binary64 value, and every \<^verbatim>\<open>-\<close>, \<^verbatim>\<open>*\<close> and
  \<^verbatim>\<open>+\<close> returns the binary64 value nearest to the exact result, a tie going to the value
  with the even significand. The finite values are the numbers \<open>m * 2\<^sup>e\<close> with an integer
  \<open>\<bar>m\<bar> < 2\<^sup>5\<^sup>3\<close> and \<open>-1074 \<le> e \<le> 971\<close>; they are reals here, so \<open>-0\<close> and \<open>0\<close> are
  one value. \<open>round_even\<close> rounds to the nearest integer, ties to even.\<close>

definition round_even :: "real \<Rightarrow> int" where
  "round_even v =
     (let n = \<lfloor>v\<rfloor>; d = v - of_int n
      in if d < 1 / 2 then n else if 1 / 2 < d then n + 1 else if even n then n else n + 1)"

text \<open>The smallest positive value, \<open>2\<^sup>-\<^sup>1\<^sup>0\<^sup>7\<^sup>4\<close>, is the unit every finite value is a multiple
  of. The exponent of a real, counted from that unit: 0 in the subnormal range and for the
  lowest normal binade, and otherwise the \<open>k\<close> that puts \<open>\<bar>v\<bar> / (unit * 2\<^sup>k)\<close> between
  \<open>2\<^sup>5\<^sup>2\<close> and \<open>2\<^sup>5\<^sup>3\<close>. The spacing of the binary64 values around \<open>v\<close> is
  \<open>b64_ulp v\<close>.\<close>

definition b64_unit :: real where
  "b64_unit = 1 / 2 ^ 1074"

definition b64_exponent :: "real \<Rightarrow> nat" where
  "b64_exponent v = nat (bitlen \<lfloor>\<bar>v\<bar> / b64_unit\<rfloor> - 53)"

definition b64_ulp :: "real \<Rightarrow> real" where
  "b64_ulp v = b64_unit * 2 ^ b64_exponent v"

text \<open>Rounding with an unbounded exponent, and the rounding of an operation: a result of
  magnitude \<open>2\<^sup>1\<^sup>0\<^sup>2\<^sup>4\<close> or more is \<^verbatim>\<open>Infinity\<close> in the source, and \<^const>\<open>None\<close> here.\<close>

definition b64_round :: "real \<Rightarrow> real" where
  "b64_round v = of_int (round_even (v / b64_ulp v)) * b64_ulp v"

definition b64_overflow :: real where
  "b64_overflow = 2 ^ 1024"

definition b64 :: "real \<Rightarrow> real option" where
  "b64 v = (let r = b64_round v in if \<bar>r\<bar> < b64_overflow then Some r else None)"

definition is_b64 :: "real \<Rightarrow> bool" where
  "is_b64 v \<longleftrightarrow> b64 v = Some v"

text \<open>Lines 61 to 64 for one coordinate: \<^verbatim>\<open>dx = raw - display\<close>, then
  \<^verbatim>\<open>display += dx * SMOOTHING_FACTOR\<close>, each operation rounded; and for both
  coordinates.\<close>

definition chase_b64 :: "real \<Rightarrow> real \<Rightarrow> real \<Rightarrow> real option" where
  "chase_b64 f raw display =
     (case b64 (raw - display) of
        None \<Rightarrow> None
      | Some dx \<Rightarrow>
          (case b64 (dx * f) of
             None \<Rightarrow> None
           | Some t \<Rightarrow> b64 (display + t)))"

definition advance_b64 :: "real \<Rightarrow> vec \<Rightarrow> vec \<Rightarrow> vec option" where
  "advance_b64 f raw display =
     (case chase_b64 f (x raw) (x display) of
        None \<Rightarrow> None
      | Some dx \<Rightarrow>
          (case chase_b64 f (y raw) (y display) of
             None \<Rightarrow> None
           | Some dy \<Rightarrow> Some \<lparr>x = dx, y = dy\<rparr>))"

subsection \<open>Moving-average smoothing\<close>

text \<open>The inner loop of \<^verbatim>\<open>smoothPoints\<close>: \<^verbatim>\<open>for (let j = ...; j <= i; j++)\<close>, with the
  three accumulators \<^verbatim>\<open>sumX\<close>, \<^verbatim>\<open>sumY\<close> and \<^verbatim>\<open>count\<close>.\<close>

function window_loop ::
  "point list \<Rightarrow> int \<Rightarrow> int \<Rightarrow> real \<times> real \<times> nat \<Rightarrow> js_error + real \<times> real \<times> nat" where
  "window_loop pts i j (sumX, sumY, count) =
     (if j \<le> i
      then (case at_index pts j of
              Inl err \<Rightarrow> Inl err
            | Inr p \<Rightarrow> window_loop pts i (j + 1) (sumX + x p, sumY + y p, count + 1))
      else Inr (sumX, sumY, count))"
  by pat_completeness auto
termination
  by (relation "measure (\<lambda>(pts, i, j, acc). nat (i + 1 - j))") auto

text \<open>The outer loop. With \<^verbatim>\<open>count\<close> equal to 0 the source divides 0 by 0 and stores
  \<^verbatim>\<open>NaN\<close> in the point; the model stops with \<^const>\<open>NotANumber\<close> there.\<close>

function smooth_loop ::
  "point list \<Rightarrow> int \<Rightarrow> int \<Rightarrow> point list \<Rightarrow> js_error + point list" where
  "smooth_loop pts windowSize i smoothed =
     (if i < int (length pts)
      then (case window_loop pts i (max 0 (i - windowSize + 1)) (0, 0, 0) of
              Inl err \<Rightarrow> Inl err
            | Inr (sumX, sumY, count) \<Rightarrow>
                if count = 0 then Inl NotANumber
                else (case at_index pts i of
                        Inl err \<Rightarrow> Inl err
                      | Inr p \<Rightarrow>
                          smooth_loop pts windowSize (i + 1)
                            (smoothed @
                               [\<lparr>x = sumX / real count, y = sumY / real count, id' = id' p\<rparr>])))
      else Inr smoothed)"
  by pat_completeness auto
termination
  by (relation "measure (\<lambda>(pts, w, i, acc). nat (int (length pts) - i))") auto

text \<open>\<^verbatim>\<open>function smoothPoints(points, windowSize = 6)\<close>: \<^const>\<open>None\<close> is the omitted
  argument. Window sizes are integers in the model.\<close>

definition smoothPoints :: "point list \<Rightarrow> int option \<Rightarrow> js_error + point list" where
  "smoothPoints pts w =
     (let windowSize = (case w of None \<Rightarrow> 6 | Some n \<Rightarrow> n)
      in if length pts < 2 then Inr pts else smooth_loop pts windowSize 0 [])"

subsection \<open>Catmull-Rom to cubic path\<close>

text \<open>The template literals turn numbers into text; the conversion is the argument
  \<open>fmt\<close>. The four neighbours are read before anything is appended, so an index out
  of range ends the call with the \<^verbatim>\<open>TypeError\<close> of the first property read on it.\<close>

function path_loop :: "(real \<Rightarrow> string) \<Rightarrow> point list \<Rightarrow> int \<Rightarrow> string \<Rightarrow> js_error + string" where
  "path_loop fmt pts i d =
     (if i < int (length pts) - 1
      then (case (if i > 0 then at_index pts (i - 1) else at_index pts i) of
              Inl err \<Rightarrow> Inl err
            | Inr p0 \<Rightarrow>
          (case at_index pts i of
              Inl err \<Rightarrow> Inl err
            | Inr p1 \<Rightarrow>
          (case at_index pts (i + 1) of
              Inl err \<Rightarrow> Inl err
            | Inr p2 \<Rightarrow>
          (case (if i < int (length pts) - 2 then at_index pts (i + 2) else Inr p2) of
              Inl err \<Rightarrow> Inl err
            | Inr p3 \<Rightarrow>
                (let cp1x = x p1 + (x p2 - x p0) / 6;
                     cp1y = y p1 + (y p2 - y p0) / 6;
                     cp2x = x p2 - (x p3 - x p1) / 6;
                     cp2y = y p2 - (y p3 - y p1) / 6
                 in path_loop fmt pts (i + 1)
                      (d @ '' C '' @ fmt cp1x @ '' '' @ fmt cp1y @ '', '' @
                           fmt cp2x @ '' '' @ fmt cp2y @ '', '' @
                           fmt (x p2) @ '' '' @ fmt (y p2)))))))
      else Inr d)"
  by pat_completeness auto
termination
  by (relation "measure (\<lambda>(fmt, pts, i, d). nat (int (length pts) - 1 - i))") auto

definition generateSmoothPath :: "(real \<Rightarrow> string) \<Rightarrow> point list \<Rightarrow> js_error + string" where
  "generateSmoothPath fmt pts =
     (if length pts < 2 then Inr []
      else (case at_index pts 0 of
              Inl err \<Rightarrow> Inl err
            | Inr p \<Rightarrow> path_loop fmt pts 0 (''M '' @ fmt (x p) @ '' '' @ fmt (y p))))"

subsection \<open>Render\<close>

text \<open>The component returns \<^verbatim>\<open>null\<close>, or a fragment. Of the fragment the model keeps
  the value bound to the local constant \<^verbatim>\<open>path\<close>, which is computed before the element
  tree is built, and the \<^verbatim>\<open>d\<close> attributes of the \<^verbatim>\<open>motion.path\<close> elements in the
  returned tree: both strokes when \<^verbatim>\<open>isEnabled\<close> holds, none otherwise. The toggle button,
  which is part of every fragment, is left out.\<close>

datatype view = Null | Fragment string "string list"

definition render :: "(real \<Rightarrow> string) \<Rightarrow> state \<Rightarrow> js_error + view" where
  "render fmt s =
     (if \<not> isDesktop s then Inr Null
      else (case smoothPoints (points s) None of
              Inl err \<Rightarrow> Inl err
            | Inr smoothed \<Rightarrow>
          (case generateSmoothPath fmt smoothed of
              Inl err \<Rightarrow> Inl err
            | Inr path \<Rightarrow> Inr (Fragment path (if isEnabled s then [path, path] else [])))))"

subsection \<open>Events\<close>

text \<open>The host calls the registered callbacks one at a time: \<^verbatim>\<open>check\<close> on mount and
  on resize, the two move handlers, the button's \<^verbatim>\<open>onClick\<close>, and \<^verbatim>\<open>loop\<close> on every
  animation frame. A handler that throws has written nothing by then, and the page goes
  on with the state it had.\<close>

datatype event =
  Resize bool
  | MouseMove pointer
  | TouchMove "pointer list"
  | Click
  | Frame

fun dispatch :: "state \<Rightarrow> event \<Rightarrow> state" where
  "dispatch s (Resize matches) = check s matches"
| "dispatch s (MouseMove e) = onMouse s e"
| "dispatch s (TouchMove touches) = (case onTouch s touches of Inl err \<Rightarrow> s | Inr s' \<Rightarrow> s')"
| "dispatch s Click = onClick s"
| "dispatch s Frame = loop s"

definition run :: "state \<Rightarrow> event list \<Rightarrow> state" where
  "run s es = foldl dispatch s es"

subsection \<open>Notions of the specification\<close>

text \<open>The number of pushes the frame loop performs along a sequence of events: a frame
  pushes \<^const>\<open>ITERATIONS_PER_FRAME\<close> times when it finds the effect enabled on a
  desktop device, and not at all otherwise.\<close>

fun total_pushes :: "state \<Rightarrow> event list \<Rightarrow> nat" where
  "total_pushes s [] = 0"
| "total_pushes s (e # es) =
     (if e = Frame \<and> isEnabled s \<and> isDesktop s then ITERATIONS_PER_FRAME else 0)
     + total_pushes (dispatch s e) es"

text \<open>One push as the specification words it: a sub-step advances the display position,
  prepends the snapshot and truncates the history to the capacity at once.\<close>

definition sub_step :: "state \<Rightarrow> state" where
  "sub_step s = (case chase_push s (points s) of (s', tail) \<Rightarrow> s'\<lparr>points := take MAX_POINTS tail\<rparr>)"

text \<open>The distance between the raw target and the display position.\<close>

definition vdist :: "vec \<Rightarrow> vec \<Rightarrow> real" where
  "vdist a b = sqrt ((x a - x b)\<^sup>2 + (y a - y b)\<^sup>2)"

text \<open>The sub-step applied \<open>n\<close> times with the raw target held fixed, and the pairs of a
  target and a display coordinate between which the chase stays finite.\<close>

fun advance_b64_n :: "nat \<Rightarrow> real \<Rightarrow> vec \<Rightarrow> vec \<Rightarrow> vec option" where
  "advance_b64_n 0 f raw display = Some display"
| "advance_b64_n (Suc n) f raw display =
     (case advance_b64 f raw display of
        None \<Rightarrow> None
      | Some d \<Rightarrow> advance_b64_n n f raw d)"


text \<open>The arithmetic mean of a coordinate over the input indices from
  \<open>max 0 (i - W + 1)\<close> to \<open>i\<close>, and the smoothed sequence as the specification words it.\<close>

definition window_mean :: "(point \<Rightarrow> real) \<Rightarrow> point list \<Rightarrow> int \<Rightarrow> nat \<Rightarrow> real" where
  "window_mean f pts W i =
     (let js = [nat (max 0 (int i - W + 1))..<Suc i]
      in sum_list (map (\<lambda>j. f (pts ! j)) js) / real (length js))"

definition moving_average :: "point list \<Rightarrow> int \<Rightarrow> point list" where
  "moving_average pts W =
     map (\<lambda>i. \<lparr>x = window_mean x pts W i, y = window_mean y pts W i, id' = id' (pts ! i)\<rparr>)
       [0..<length pts]"

text \<open>A path as the specification describes it: a move to the first point, then one
  cubic segment per consecutive pair, each given by its two control points and its
  end point.\<close>

datatype path_cmd = MoveTo vec | CurveTo vec vec vec

definition pos :: "point \<Rightarrow> vec" where
  "pos p = \<lparr>x = x p, y = y p\<rparr>"

definition vadd :: "vec \<Rightarrow> vec \<Rightarrow> vec" where
  "vadd a b = \<lparr>x = x a + x b, y = y a + y b\<rparr>"

definition vsub :: "vec \<Rightarrow> vec \<Rightarrow> vec" where
  "vsub a b = \<lparr>x = x a - x b, y = y a - y b\<rparr>"

definition vdiv :: "vec \<Rightarrow> real \<Rightarrow> vec" where
  "vdiv a c = \<lparr>x = x a / c, y = y a / c\<rparr>"

definition spline_segment :: "point list \<Rightarrow> nat \<Rightarrow> path_cmd" where
  "spline_segment pts i =
     (let p1 = pos (pts ! i);
          p2 = pos (pts ! (i + 1));
          p0 = (if i = 0 then p1 else pos (pts ! (i - 1)));
          p3 = (if i + 2 < length pts then pos (pts ! (i + 2)) else p2)
      in CurveTo (vadd p1 (vdiv (vsub p2 p0) 6)) (vsub p2 (vdiv (vsub p3 p1) 6)) p2)"

definition spline_path :: "point list \<Rightarrow> path_cmd list" where
  "spline_path pts = MoveTo (pos (pts ! 0)) # map (spline_segment pts) [0..<length pts - 1]"

fun path_text :: "(real \<Rightarrow> string) \<Rightarrow> path_cmd \<Rightarrow> string" where
  "path_text fmt (MoveTo p) = ''M '' @ fmt (x p) @ '' '' @ fmt (y p)"
| "path_text fmt (CurveTo c1 c2 p) =
     '' C '' @ fmt (x c1) @ '' '' @ fmt (y c1) @ '', '' @
     fmt (x c2) @ '' '' @ fmt (y c2) @ '', '' @ fmt (x p) @ '' '' @ fmt (y p)"

text \<open>A number-to-text conversion for whole numbers, which JavaScript prints as their
  decimal digits (below \<open>10\<^sup>2\<^sup>1\<close> in magnitude); an instance of the argument \<open>fmt\<close> for
  inputs whose coordinates and control points are whole.\<close>

function digits :: "nat \<Rightarrow> string" where
  "digits n =
     (if n < 10 then [''0123456789'' ! n]
      else digits (n div 10) @ [''0123456789'' ! (n mod 10)])"
  by pat_completeness auto
termination
  by (relation "measure (\<lambda>n. n)") auto

definition fmt_whole :: "real \<Rightarrow> string" where
  "fmt_whole r = (if r < 0 then ''-'' @ digits (nat (- \<lfloor>r\<rfloor>)) else digits (nat \<lfloor>r\<rfloor>))"

section \<open>The frame loop, unfolded\<close>

declare updater_loop.simps [simp del]

lemma updater_loop_unfold:
  "updater_loop 0 s t =
     (case chase_push s t of (s1, t1) \<Rightarrow>
      case chase_push s1 t1 of (s2, t2) \<Rightarrow>
      case chase_push s2 t2 of (s3, t3) \<Rightarrow> chase_push s3 t3)"
  by (simp add: updater_loop.simps ITERATIONS_PER_FRAME_def split: prod.split)

lemma updater_eq:
  "updater s prev =
     (let d1 = advance SMOOTHING_FACTOR (rawPos s) (displayPos s);
          d2 = advance SMOOTHING_FACTOR (rawPos s) d1;
          d3 = advance SMOOTHING_FACTOR (rawPos s) d2;
          d4 = advance SMOOTHING_FACTOR (rawPos s) d3
      in (s\<lparr>displayPos := d4, pointId := pointId s + 4\<rparr>,
          take MAX_POINTS
            (\<lparr>x = x d4, y = y d4, id' = pointId s + 3\<rparr> #
             \<lparr>x = x d3, y = y d3, id' = pointId s + 2\<rparr> #
             \<lparr>x = x d2, y = y d2, id' = pointId s + 1\<rparr> #
             \<lparr>x = x d1, y = y d1, id' = pointId s\<rparr> # prev)))"
  by (simp add: updater_def updater_loop_unfold chase_push_def Let_def numeral_3_eq_3)

lemma loop_active:
  "isEnabled s \<Longrightarrow> isDesktop s \<Longrightarrow>
   loop s =
     (let d1 = advance SMOOTHING_FACTOR (rawPos s) (displayPos s);
          d2 = advance SMOOTHING_FACTOR (rawPos s) d1;
          d3 = advance SMOOTHING_FACTOR (rawPos s) d2;
          d4 = advance SMOOTHING_FACTOR (rawPos s) d3
      in s\<lparr>displayPos := d4, pointId := pointId s + 4,
           points := take MAX_POINTS
            (\<lparr>x = x d4, y = y d4, id' = pointId s + 3\<rparr> #
             \<lparr>x = x d3, y = y d3, id' = pointId s + 2\<rparr> #
             \<lparr>x = x d2, y = y d2, id' = pointId s + 1\<rparr> #
             \<lparr>x = x d1, y = y d1, id' = pointId s\<rparr> # points s)\<rparr>)"
  by (simp add: loop_def updater_eq Let_def)

lemma loop_inactive: "\<not> (isEnabled s \<and> isDesktop s) \<Longrightarrow> loop s = s"
  by (auto simp: loop_def)

lemma loop_flags: "isEnabled (loop s) = isEnabled s" "isDesktop (loop s) = isDesktop s"
  "rawPos (loop s) = rawPos s"
  by (cases "isEnabled s \<and> isDesktop s"; simp add: loop_active loop_inactive Let_def)+

lemma loop_counts:
  assumes "isEnabled s" and "isDesktop s"
  shows "pointId (loop s) = pointId s + 4"
    and "length (points (loop s)) = min MAX_POINTS (length (points s) + 4)"
    and "map id' (points (loop s)) =
           take MAX_POINTS
             ([pointId s + 3, pointId s + 2, pointId s + 1, pointId s] @ map id' (points s))"
  using assms by (simp_all add: loop_active Let_def flip: take_map)

lemma dispatch_not_frame:
  "e \<noteq> Frame \<Longrightarrow> points (dispatch s e) = points s \<and> pointId (dispatch s e) = pointId s
     \<and> displayPos (dispatch s e) = displayPos s"
  by (cases e) (auto simp: check_def onMouse_def onTouch_def onClick_def split: sum.splits)

lemma run_Nil: "run s [] = s"
  by (simp add: run_def)

lemma run_Cons: "run s (e # es) = run (dispatch s e) es"
  by (simp add: run_def)

lemma run_snoc: "run s (es @ [e]) = dispatch (run s es) e"
  by (simp add: run_def)

section \<open>Invariants of the history\<close>

lemma pointId_dispatch:
  "pointId (dispatch s e) =
     pointId s + (if e = Frame \<and> isEnabled s \<and> isDesktop s then ITERATIONS_PER_FRAME else 0)"
  by (cases "e = Frame")
     (auto simp: dispatch_not_frame loop_counts loop_inactive ITERATIONS_PER_FRAME_def)

lemma pointId_run: "pointId (run s es) = pointId s + total_pushes s es"
  by (induction es arbitrary: s) (auto simp: pointId_dispatch run_Nil run_Cons)

lemma length_loop:
  assumes "length (points s) = min (pointId s) MAX_POINTS"
  shows "length (points (loop s)) = min (pointId (loop s)) MAX_POINTS"
proof (cases "isEnabled s \<and> isDesktop s")
  case True
  with assms show ?thesis by (simp add: loop_counts)
next
  case False
  with assms show ?thesis by (simp add: loop_inactive)
qed

lemma length_dispatch:
  assumes "length (points s) = min (pointId s) MAX_POINTS"
  shows "length (points (dispatch s e)) = min (pointId (dispatch s e)) MAX_POINTS"
proof (cases "e = Frame")
  case True
  with assms show ?thesis by (simp add: length_loop)
next
  case False
  with assms dispatch_not_frame [OF False, of s] show ?thesis by simp
qed

lemma length_run:
  "length (points s) = min (pointId s) MAX_POINTS \<Longrightarrow>
   length (points (run s es)) = min (pointId (run s es)) MAX_POINTS"
  by (induction es arbitrary: s) (simp_all add: run_Nil run_Cons length_dispatch)

lemma ids_loop:
  assumes "map id' (points s) = rev [pointId s - length (points s)..<pointId s]"
    and "length (points s) \<le> pointId s"
  shows "map id' (points (loop s)) =
           rev [pointId (loop s) - length (points (loop s))..<pointId (loop s)]"
proof (cases "isEnabled s \<and> isDesktop s")
  case False
  with assms show ?thesis by (simp add: loop_inactive)
next
  case True
  let ?n = "pointId s" and ?l = "length (points s)"
  have pid: "pointId (loop s) = ?n + 4"
    and len: "length (points (loop s)) = min MAX_POINTS (?l + 4)"
    using True by (simp_all add: loop_counts)
  have "map id' (points (loop s)) =
          take MAX_POINTS ([?n + 3, ?n + 2, ?n + 1, ?n] @ map id' (points s))"
    using True by (simp add: loop_counts)
  also have "[?n + 3, ?n + 2, ?n + 1, ?n] @ map id' (points s) =
          rev ([?n - ?l..<?n] @ [?n, ?n + 1, ?n + 2, ?n + 3])"
    by (simp add: assms(1))
  also have "[?n - ?l..<?n] @ [?n, ?n + 1, ?n + 2, ?n + 3] = [?n - ?l..<?n + 4]"
    using upt_add_eq_append [of "?n - ?l" ?n 4] by (simp add: upt_rec numeral_eq_Suc)
  also have "take MAX_POINTS (rev [?n - ?l..<?n + 4]) =
          rev (drop (length [?n - ?l..<?n + 4] - MAX_POINTS) [?n - ?l..<?n + 4])"
    by (simp add: take_rev)
  also have "\<dots> = rev [?n + 4 - min MAX_POINTS (?l + 4)..<?n + 4]"
    using assms(2) by (simp add: min_def)
  finally show ?thesis by (simp only: pid len)
qed

lemma ids_dispatch:
  assumes "map id' (points s) = rev [pointId s - length (points s)..<pointId s]"
    and "length (points s) \<le> pointId s"
  shows "map id' (points (dispatch s e)) =
           rev [pointId (dispatch s e) - length (points (dispatch s e))..<pointId (dispatch s e)]"
proof (cases "e = Frame")
  case True
  with assms show ?thesis by (simp add: ids_loop)
next
  case False
  with assms dispatch_not_frame [OF False, of s] show ?thesis by simp
qed

lemma ids_run:
  assumes "map id' (points s) = rev [pointId s - length (points s)..<pointId s]"
    and "length (points s) = min (pointId s) MAX_POINTS"
  shows "map id' (points (run s es)) =
           rev [pointId (run s es) - length (points (run s es))..<pointId (run s es)]"
  using assms
proof (induction es arbitrary: s)
  case Nil
  then show ?case by (simp add: run_Nil)
next
  case (Cons e es)
  have "length (points s) \<le> pointId s"
    using Cons.prems(2) by simp
  then have "map id' (points (dispatch s e)) =
      rev [pointId (dispatch s e) - length (points (dispatch s e))..<pointId (dispatch s e)]"
    using Cons.prems(1) by (simp add: ids_dispatch)
  moreover have "length (points (dispatch s e)) = min (pointId (dispatch s e)) MAX_POINTS"
    using Cons.prems(2) by (rule length_dispatch)
  ultimately show ?case
    unfolding run_Cons by (rule Cons.IH)
qed

lemma initial_inv:
  "map id' (points initial_state) =
     rev [pointId initial_state - length (points initial_state)..<pointId initial_state]"
  "length (points initial_state) = min (pointId initial_state) MAX_POINTS"
  by (simp_all add: initial_state_def)

lemma sorted_rev_upt: "sorted_wrt (>) (rev [a..<b])"
  by (simp add: sorted_wrt_rev)

text \<open>A frame against the specification's single pushes: four prepends and one cut give
  the history that four pushes, each cut to the capacity at once, give.\<close>

lemma sub_step_fields:
  "pointId (sub_step s) = pointId s + 1"
  "isEnabled (sub_step s) = isEnabled s" "isDesktop (sub_step s) = isDesktop s"
  "length (points (sub_step s)) = min MAX_POINTS (length (points s) + 1)"
  by (simp_all add: sub_step_def chase_push_def Let_def)

lemma loop_sub_steps:
  assumes "isEnabled s" and "isDesktop s"
  shows "loop s = (sub_step ^^ ITERATIONS_PER_FRAME) s"
  using assms
  by (simp add: loop_active ITERATIONS_PER_FRAME_def numeral_eq_Suc sub_step_def chase_push_def
        Let_def MAX_POINTS_def)

lemma funpow_sub_step_flags:
  "isEnabled ((sub_step ^^ k) s) = isEnabled s" "isDesktop ((sub_step ^^ k) s) = isDesktop s"
  by (induction k) (simp_all add: sub_step_fields)

lemma frames_sub_steps:
  "isEnabled s \<Longrightarrow> isDesktop s \<Longrightarrow>
   run s (replicate n Frame) = (sub_step ^^ (ITERATIONS_PER_FRAME * n)) s"
proof (induction n arbitrary: s)
  case 0
  then show ?case by (simp add: run_Nil)
next
  case (Suc n)
  have "run s (replicate (Suc n) Frame) = run (loop s) (replicate n Frame)"
    by (simp add: run_Cons)
  also have "\<dots> = (sub_step ^^ (ITERATIONS_PER_FRAME * n)) (loop s)"
    using Suc.prems by (intro Suc.IH) (simp_all add: loop_flags)
  also have "loop s = (sub_step ^^ ITERATIONS_PER_FRAME) s"
    using Suc.prems by (rule loop_sub_steps)
  finally have *: "run s (replicate (Suc n) Frame) =
      (sub_step ^^ (ITERATIONS_PER_FRAME * n)) ((sub_step ^^ ITERATIONS_PER_FRAME) s)" .
  have "ITERATIONS_PER_FRAME * Suc n = ITERATIONS_PER_FRAME * n + ITERATIONS_PER_FRAME"
    by simp
  then show ?case
    unfolding * by (simp only: funpow_add o_apply)
qed

lemma sub_steps_length:
  "length (points s) = min (pointId s) MAX_POINTS \<Longrightarrow>
   pointId ((sub_step ^^ k) s) = pointId s + k \<and>
   length (points ((sub_step ^^ k) s)) = min (pointId s + k) MAX_POINTS"
  by (induction k) (auto simp: sub_step_fields)

text \<open>C1: along every sequence of events the history holds at most 80 points, and as many
  as pushes were made while fewer than 80 were; the id counter is the number of pushes.
  A run of \<open>n\<close> frames is a run of \<open>4 * n\<close> single pushes that each cut the history to
  the capacity, and after \<open>k\<close> such pushes the history holds \<open>min k 80\<close> points.\<close>

theorem bounded_buffer:
  "length (points (run initial_state es)) \<le> MAX_POINTS
   \<and> length (points (run initial_state es)) = min (total_pushes initial_state es) MAX_POINTS
   \<and> pointId (run initial_state es) = total_pushes initial_state es
   \<and> run initial_state (replicate n Frame) =
       (sub_step ^^ (ITERATIONS_PER_FRAME * n)) initial_state
   \<and> length (points ((sub_step ^^ k) initial_state)) = min k MAX_POINTS
   \<and> MAX_POINTS = 80"
proof -
  have "length (points (run initial_state es)) = min (pointId (run initial_state es)) MAX_POINTS"
    by (rule length_run [OF initial_inv(2)])
  moreover have "pointId (run initial_state es) = total_pushes initial_state es"
    by (simp add: pointId_run initial_state_def)
  moreover have "run initial_state (replicate n Frame) =
       (sub_step ^^ (ITERATIONS_PER_FRAME * n)) initial_state"
    by (rule frames_sub_steps) (simp_all add: initial_state_def)
  moreover have "length (points ((sub_step ^^ k) initial_state)) = min k MAX_POINTS"
    using sub_steps_length [OF initial_inv(2), of k] by (simp add: initial_state_def)
  ultimately show ?thesis
    by (simp add: MAX_POINTS_def)
qed

lemma initial_flags: "isEnabled initial_state" "isDesktop initial_state"
  by (simp_all add: initial_state_def)

lemma total_pushes_frames:
  "isEnabled s \<Longrightarrow> isDesktop s \<Longrightarrow>
   total_pushes s (replicate n Frame) = ITERATIONS_PER_FRAME * n"
  by (induction n arbitrary: s) (simp_all add: loop_flags)

theorem bounded_buffer_witness:
  "length (points (run initial_state [Frame, Click, Frame, Click, Frame])) = 8
   \<and> length (points (run initial_state (replicate 21 Frame))) = 80"
proof -
  have "total_pushes initial_state (replicate 21 Frame) = ITERATIONS_PER_FRAME * 21"
    by (rule total_pushes_frames [OF initial_flags])
  then have full: "min (total_pushes initial_state (replicate 21 Frame)) MAX_POINTS = 80"
    by (simp only: ITERATIONS_PER_FRAME_def MAX_POINTS_def)
  have "total_pushes initial_state [Frame, Click, Frame, Click, Frame] = 8"
    by (simp add: loop_flags onClick_def initial_flags ITERATIONS_PER_FRAME_def)
  then have part: "min (total_pushes initial_state [Frame, Click, Frame, Click, Frame]) MAX_POINTS = 8"
    by (simp add: MAX_POINTS_def)
  show ?thesis
    using bounded_buffer [where es = "[Frame, Click, Frame, Click, Frame]" and n = 0 and k = 0]
      bounded_buffer [where es = "replicate 21 Frame" and n = 0 and k = 0]
    by (simp only: full part)
qed

text \<open>C2: in every reachable history the ids strictly decrease from the newest point to
  the oldest, no id occurs twice, and every id in use is below the counter, which the
  next event does not lower: an id handed out later differs from all handed out before.\<close>

theorem id_ordering:
  "sorted_wrt (>) (map id' (points (run initial_state es)))
   \<and> distinct (map id' (points (run initial_state es)))
   \<and> (\<forall>p \<in> set (points (run initial_state es)). id' p < pointId (run initial_state es))
   \<and> map id' (points (run initial_state es)) =
       rev [pointId (run initial_state es) - length (points (run initial_state es))
            ..<pointId (run initial_state es)]
   \<and> pointId (run initial_state es) \<le> pointId (run initial_state (es @ [e]))"
proof -
  let ?s = "run initial_state es"
  have ids: "map id' (points ?s) = rev [pointId ?s - length (points ?s)..<pointId ?s]"
    by (rule ids_run [OF initial_inv])
  have 1: "sorted_wrt (>) (map id' (points ?s))"
    unfolding ids by (rule sorted_rev_upt)
  have 2: "distinct (map id' (points ?s))"
    unfolding ids by simp
  have "\<forall>i \<in> set (map id' (points ?s)). i < pointId ?s"
    unfolding ids by simp
  then have 3: "\<forall>p \<in> set (points ?s). id' p < pointId ?s"
    by simp
  have 4: "pointId ?s \<le> pointId (run initial_state (es @ [e]))"
    by (simp add: run_snoc pointId_dispatch)
  from 1 2 3 4 ids show ?thesis by blast
qed

theorem id_ordering_witness:
  "map id' (points (run initial_state [Frame, Frame])) = [7, 6, 5, 4, 3, 2, 1, 0]"
proof -
  have "pointId (run initial_state [Frame, Frame]) = 8"
    by (simp add: pointId_run loop_flags initial_flags ITERATIONS_PER_FRAME_def)
       (simp add: initial_state_def)
  moreover have "length (points (run initial_state [Frame, Frame])) = 8"
    using length_run [OF initial_inv(2), of "[Frame, Frame]"] calculation
    by (simp add: MAX_POINTS_def)
  ultimately show ?thesis
    using id_ordering [of "[Frame, Frame]" Frame] by (simp add: upt_rec)
qed

section \<open>The exponential chase\<close>

lemma advance_diff:
  "x raw - x (advance f raw d) = (1 - f) * (x raw - x d)"
  "y raw - y (advance f raw d) = (1 - f) * (y raw - y d)"
  by (simp_all add: advance_def Let_def algebra_simps)

lemma vdist_advance:
  assumes "f \<le> 1"
  shows "vdist raw (advance f raw d) = (1 - f) * vdist raw d"
proof -
  have "(x raw - x (advance f raw d))\<^sup>2 + (y raw - y (advance f raw d))\<^sup>2
        = (1 - f)\<^sup>2 * ((x raw - x d)\<^sup>2 + (y raw - y d)\<^sup>2)"
    by (simp add: advance_diff power_mult_distrib distrib_left)
  then have "vdist raw (advance f raw d) = sqrt ((1 - f)\<^sup>2 * ((x raw - x d)\<^sup>2 + (y raw - y d)\<^sup>2))"
    by (simp add: vdist_def)
  also have "\<dots> = \<bar>1 - f\<bar> * vdist raw d"
    by (simp add: real_sqrt_mult vdist_def)
  finally show ?thesis using assms by simp
qed

lemma vdist_nonneg: "0 \<le> vdist a b"
  by (simp add: vdist_def)

lemma vdist_advance_pow:
  assumes "f \<le> 1"
  shows "vdist raw ((advance f raw ^^ n) d) = (1 - f) ^ n * vdist raw d"
  by (induction n) (simp_all add: vdist_advance [OF assms])

lemma advance_between:
  assumes "0 < f" "f \<le> 1"
  shows "min (x d) (x raw) \<le> x (advance f raw d) \<and> x (advance f raw d) \<le> max (x d) (x raw)"
    and "min (y d) (y raw) \<le> y (advance f raw d) \<and> y (advance f raw d) \<le> max (y d) (y raw)"
proof -
  have *: "min a b \<le> a + (b - a) * f \<and> a + (b - a) * f \<le> max a b" for a b :: real
  proof (cases "a \<le> b")
    case True
    then have "0 \<le> (b - a) * f" "(b - a) * f \<le> b - a"
      using assms mult_left_le [of f "b - a"] by simp_all
    with True show ?thesis by linarith
  next
    case False
    then have "0 \<le> (a - b) * f" "(a - b) * f \<le> a - b"
      using assms mult_left_le [of f "a - b"] by simp_all
    moreover have "a + (b - a) * f = a - (a - b) * f"
      by (simp add: algebra_simps)
    ultimately show ?thesis using False by linarith
  qed
  show "min (x d) (x raw) \<le> x (advance f raw d) \<and> x (advance f raw d) \<le> max (x d) (x raw)"
    using * [of "x d" "x raw"] by (simp add: advance_def Let_def)
  show "min (y d) (y raw) \<le> y (advance f raw d) \<and> y (advance f raw d) \<le> max (y d) (y raw)"
    using * [of "y d" "y raw"] by (simp add: advance_def Let_def)
qed

text \<open>The chase in exact arithmetic: with the raw target fixed and a factor in (0, 1], one
  sub-step multiplies the distance to the target by \<open>1 - f\<close>, so after \<open>n\<close> sub-steps it
  is \<open>(1 - f) ^ n\<close> times the first one, and each coordinate of the new display position lies
  between the old one and the target. This is a fact about \<^const>\<open>advance\<close> over the reals,
  not about the rounded operations of the source.\<close>

lemma advance_exact_arithmetic:
  assumes "0 < f" and "f \<le> 1"
  shows "vdist raw (advance f raw d) = (1 - f) * vdist raw d
       \<and> vdist raw (advance f raw d) \<le> vdist raw d
       \<and> vdist raw ((advance f raw ^^ n) d) = (1 - f) ^ n * vdist raw d
       \<and> vdist raw ((advance f raw ^^ Suc n) d) \<le> vdist raw ((advance f raw ^^ n) d)
       \<and> \<bar>x raw - x (advance f raw d)\<bar> = (1 - f) * \<bar>x raw - x d\<bar>
       \<and> \<bar>y raw - y (advance f raw d)\<bar> = (1 - f) * \<bar>y raw - y d\<bar>
       \<and> min (x d) (x raw) \<le> x (advance f raw d) \<and> x (advance f raw d) \<le> max (x d) (x raw)
       \<and> min (y d) (y raw) \<le> y (advance f raw d) \<and> y (advance f raw d) \<le> max (y d) (y raw)"
proof -
  have le1: "(1 - f) * r \<le> r" if "0 \<le> r" for r :: real
    using that assms by (simp add: mult_left_le_one_le)
  have a: "vdist raw (advance f raw d) = (1 - f) * vdist raw d"
    by (rule vdist_advance [OF assms(2)])
  have b: "vdist raw (advance f raw d) \<le> vdist raw d"
    unfolding a by (rule le1 [OF vdist_nonneg])
  have c: "vdist raw ((advance f raw ^^ n) d) = (1 - f) ^ n * vdist raw d"
    by (rule vdist_advance_pow [OF assms(2)])
  have d: "vdist raw ((advance f raw ^^ Suc n) d) \<le> vdist raw ((advance f raw ^^ n) d)"
    by (simp add: vdist_advance [OF assms(2)] le1 [OF vdist_nonneg])
  have e: "\<bar>x raw - x (advance f raw d)\<bar> = (1 - f) * \<bar>x raw - x d\<bar>"
          "\<bar>y raw - y (advance f raw d)\<bar> = (1 - f) * \<bar>y raw - y d\<bar>"
    using assms by (simp_all add: advance_diff abs_mult)
  from a b c d e advance_between [OF assms, of d raw] show ?thesis by simp
qed

lemma advance_exact_arithmetic_instance:
  "(0::real) < 3/4 \<and> (3/4::real) \<le> 1
   \<and> vdist \<lparr>x = 100, y = 0\<rparr> (advance (3/4) \<lparr>x = 100, y = 0\<rparr> \<lparr>x = 0, y = 0\<rparr>) = 25
   \<and> vdist \<lparr>x = 100, y = 0\<rparr> \<lparr>x = 0, y = 0\<rparr> = 100
   \<and> x (advance (3/4) \<lparr>x = 100, y = 0\<rparr> \<lparr>x = 0, y = 0\<rparr>) = 75"
  using advance_exact_arithmetic [of "3/4" "\<lparr>x = 100, y = 0\<rparr>" "\<lparr>x = 0, y = 0\<rparr>" 0]
  by (simp add: vdist_def advance_def Let_def)

section \<open>Binary64 rounding\<close>

text \<open>The rounded value is a nearest one among the binary64 values, hence rounding is
  monotone, leaves binary64 values as they are and commutes with negation.\<close>

lemma round_even_near: "\<bar>of_int (round_even v) - v\<bar> \<le> 1 / 2"
  unfolding round_even_def Let_def by (auto; linarith)

lemma int_apart: "n \<noteq> m \<Longrightarrow> 1 \<le> \<bar>real_of_int n - real_of_int m\<bar>"
proof -
  assume "n \<noteq> m"
  then have "1 \<le> \<bar>n - m\<bar>" by linarith
  then have "real_of_int 1 \<le> real_of_int \<bar>n - m\<bar>" by (simp only: of_int_le_iff)
  then show ?thesis by simp
qed

lemma round_even_nearest: "\<bar>of_int (round_even v) - v\<bar> \<le> \<bar>of_int n - v\<bar>"
proof (cases "n = round_even v")
  case True
  then show ?thesis by simp
next
  case False
  from int_apart [OF this] round_even_near [of v] show ?thesis by linarith
qed

lemma round_even_of_int: "round_even (of_int n) = n"
  by (simp add: round_even_def)


lemma round_even_bounds:
  assumes "of_int a \<le> v" and "v \<le> of_int b"
  shows "a \<le> round_even v \<and> round_even v \<le> b"
proof -
  have "a \<le> \<lfloor>v\<rfloor>" using assms(1) by (simp add: le_floor_iff)
  moreover have "\<lfloor>v\<rfloor> \<le> round_even v"
    by (simp add: round_even_def Let_def)
  moreover have "round_even v \<le> b"
  proof (cases "v = of_int b")
    case True
    then show ?thesis by (simp add: round_even_of_int)
  next
    case False
    then have "v < of_int b" using assms(2) by simp
    then have "\<lfloor>v\<rfloor> < b" by (simp add: floor_less_iff)
    moreover have "round_even v \<le> \<lfloor>v\<rfloor> + 1"
      by (simp add: round_even_def Let_def)
    ultimately show ?thesis by linarith
  qed
  ultimately show ?thesis by linarith
qed


lemma b64_unit_pos: "0 < b64_unit"
  by (simp add: b64_unit_def)

lemma b64_exponent_bounds:
  fixes v :: real
  defines "ulp \<equiv> b64_ulp v"
  shows "\<bar>v\<bar> / ulp < 2 ^ 53" and "0 < b64_exponent v \<Longrightarrow> 2 ^ 52 \<le> \<bar>v\<bar> / ulp"
proof -
  define N where "N = \<lfloor>\<bar>v\<bar> / b64_unit\<rfloor>"
  define k where "k = b64_exponent v"
  have k: "k = nat (bitlen N - 53)"
    by (simp add: k_def N_def b64_exponent_def)
  have N0: "0 \<le> N"
    unfolding N_def using b64_unit_pos by simp
  have lo: "of_int N \<le> \<bar>v\<bar> / b64_unit" and hi: "\<bar>v\<bar> / b64_unit < of_int N + 1"
    unfolding N_def by linarith+
  have ulp: "\<bar>v\<bar> / ulp = \<bar>v\<bar> / b64_unit / 2 ^ k"
    by (simp add: ulp_def b64_ulp_def k_def)
  have upper: "\<bar>v\<bar> / b64_unit < 2 ^ (53 + k)"
  proof (cases "0 < N")
    case False
    with N0 have "N = 0" by simp
    with hi have "\<bar>v\<bar> / b64_unit < 1" by simp
    also have "(1::real) \<le> 2 ^ (53 + k)" by simp
    finally show ?thesis .
  next
    case True
    then have "N < 2 ^ nat (bitlen N)"
      using bitlen_bounds [of N] by simp
    also have "nat (bitlen N) \<le> 53 + k"
      unfolding k by linarith
    then have "(2::int) ^ nat (bitlen N) \<le> 2 ^ (53 + k)"
      by (simp add: power_increasing)
    finally have "N + 1 \<le> 2 ^ (53 + k)" by simp
    then have "real_of_int (N + 1) \<le> real_of_int (2 ^ (53 + k))"
      by (simp only: of_int_le_iff)
    with hi show ?thesis by simp
  qed
  show "\<bar>v\<bar> / ulp < 2 ^ 53"
    unfolding ulp using upper b64_unit_pos by (simp add: power_add divide_less_eq mult_ac)
  show "2 ^ 52 \<le> \<bar>v\<bar> / ulp" if "0 < b64_exponent v"
  proof -
    from that have kpos: "0 < k" by (simp add: k_def)
    then have bl: "bitlen N = 53 + int k"
      unfolding k by linarith
    then have "0 < N"
      using N0 bitlen_eq_zero_iff [of N] by (cases "N = 0") auto
    then have "2 ^ nat (bitlen N - 1) \<le> N"
      using bitlen_bounds [of N] by simp
    moreover have "nat (bitlen N - 1) = 52 + k"
      unfolding bl by simp
    ultimately have "(2::int) ^ (52 + k) \<le> N" by simp
    then have "(2::real) ^ (52 + k) \<le> real_of_int N"
      by simp
    with lo have "2 ^ (52 + k) \<le> \<bar>v\<bar> / b64_unit" by linarith
    then show ?thesis
      unfolding ulp using b64_unit_pos by (simp add: power_add le_divide_eq mult_ac)
  qed
qed

lemma b64_ulp_pos: "0 < b64_ulp v"
  by (simp add: b64_ulp_def b64_unit_pos)

lemma b64_round_error: "\<bar>b64_round v - v\<bar> = \<bar>of_int (round_even (v / b64_ulp v)) - v / b64_ulp v\<bar> * b64_ulp v"
proof -
  have "b64_round v - v = (of_int (round_even (v / b64_ulp v)) - v / b64_ulp v) * b64_ulp v"
    using b64_ulp_pos [of v] by (simp add: b64_round_def algebra_simps)
  then show ?thesis
    using b64_ulp_pos [of v] by (simp add: abs_mult)
qed

lemma grid_nearest:
  "\<bar>b64_round v - v\<bar> \<le> \<bar>of_int c * b64_ulp v - v\<bar>"
proof -
  have "of_int c * b64_ulp v - v = (of_int c - v / b64_ulp v) * b64_ulp v"
    using b64_ulp_pos [of v] by (simp add: algebra_simps)
  then have "\<bar>of_int c * b64_ulp v - v\<bar> = \<bar>of_int c - v / b64_ulp v\<bar> * b64_ulp v"
    using b64_ulp_pos [of v] by (simp add: abs_mult)
  then show ?thesis
    unfolding b64_round_error
    using round_even_nearest [of "v / b64_ulp v" c] b64_ulp_pos [of v]
    by (simp add: mult_right_mono)
qed

lemma b64_round_nearest:
  assumes m: "\<bar>m\<bar> \<le> 2 ^ 53"
  shows "\<bar>b64_round v - v\<bar> \<le> \<bar>of_int m * (b64_unit * 2 ^ j) - v\<bar>"
proof (cases "b64_exponent v \<le> j")
  case True
  define k where "k = b64_exponent v"
  have "(2::real) ^ j = 2 ^ (j - k) * 2 ^ k"
    using True by (simp add: k_def flip: power_add)
  then have eq: "of_int m * (b64_unit * 2 ^ j) = of_int (m * 2 ^ (j - k)) * b64_ulp v"
    by (simp add: b64_ulp_def k_def)
  show ?thesis
    unfolding eq by (rule grid_nearest)
next
  case False
  define k where "k = b64_exponent v"
  define W where "W = of_int m * (b64_unit * 2 ^ j)"
  from False have jk: "j < k" and kpos: "0 < b64_exponent v" by (simp_all add: k_def)
  have big: "2 ^ 52 \<le> \<bar>v\<bar> / b64_ulp v"
    by (rule b64_exponent_bounds(2) [OF kpos])
  then have vbig: "2 ^ 52 * b64_ulp v \<le> \<bar>v\<bar>"
    using b64_ulp_pos [of v] by (simp add: le_divide_eq)
  have "Suc j \<le> k" using jk by simp
  then have "(2::real) ^ Suc j \<le> 2 ^ k"
    by (rule power_increasing) simp
  then have pj: "(2::real) * 2 ^ j \<le> 2 ^ k" by simp
  have "\<bar>W\<bar> = \<bar>of_int m\<bar> * (b64_unit * 2 ^ j)"
    using b64_unit_pos by (simp add: W_def abs_mult)
  also have "\<dots> \<le> 2 ^ 53 * (b64_unit * 2 ^ j)"
  proof (rule mult_right_mono)
    have "real_of_int \<bar>m\<bar> \<le> real_of_int (2 ^ 53)"
      using m by (simp only: of_int_le_iff)
    then show "\<bar>real_of_int m\<bar> \<le> 2 ^ 53" by simp
    show "0 \<le> b64_unit * 2 ^ j" using b64_unit_pos by simp
  qed
  also have "\<dots> = 2 ^ 52 * (b64_unit * (2 * 2 ^ j))" by simp
  also have "\<dots> \<le> 2 ^ 52 * (b64_unit * 2 ^ k)"
    using pj b64_unit_pos by (simp add: mult_left_mono)
  finally have Wsmall: "\<bar>W\<bar> \<le> 2 ^ 52 * b64_ulp v"
    by (simp add: b64_ulp_def k_def)
  show ?thesis
  proof (cases "0 \<le> v")
    case True
    have "\<bar>b64_round v - v\<bar> \<le> \<bar>of_int (2 ^ 52) * b64_ulp v - v\<bar>"
      by (rule grid_nearest)
    also have "\<dots> = v - 2 ^ 52 * b64_ulp v"
      using vbig True by simp
    also have "\<dots> \<le> \<bar>W - v\<bar>"
      using Wsmall vbig True by linarith
    finally show ?thesis by (simp add: W_def)
  next
    case False
    have "\<bar>b64_round v - v\<bar> \<le> \<bar>of_int (- (2 ^ 52)) * b64_ulp v - v\<bar>"
      by (rule grid_nearest)
    also have "\<dots> = - v - 2 ^ 52 * b64_ulp v"
      using vbig False by simp
    also have "\<dots> \<le> \<bar>W - v\<bar>"
      using Wsmall vbig False by linarith
    finally show ?thesis by (simp add: W_def)
  qed
qed

lemma b64_round_form:
  "\<exists>n. b64_round v = of_int n * (b64_unit * 2 ^ b64_exponent v) \<and> \<bar>n\<bar> \<le> 2 ^ 53
       \<and> (0 < b64_exponent v \<longrightarrow> 2 ^ 52 \<le> \<bar>n\<bar>)"
proof -
  define q where "q = v / b64_ulp v"
  define n where "n = round_even q"
  have q: "\<bar>q\<bar> < 2 ^ 53"
    using b64_exponent_bounds(1) [of v] b64_ulp_pos [of v] by (simp add: q_def)
  have "of_int (- (2 ^ 53)) \<le> q" "q \<le> of_int (2 ^ 53)"
    using q by simp_all
  from round_even_bounds [OF this] have n: "\<bar>n\<bar> \<le> 2 ^ 53"
    unfolding n_def by linarith
  have big: "2 ^ 52 \<le> \<bar>n\<bar>" if "0 < b64_exponent v"
  proof -
    have qq: "2 ^ 52 \<le> \<bar>q\<bar>"
      using b64_exponent_bounds(2) [OF that] b64_ulp_pos [of v] by (simp add: q_def)
    show ?thesis
    proof (cases "0 \<le> q")
      case True
      with qq have "of_int (2 ^ 52) \<le> q" "q \<le> of_int (2 ^ 53)" using q by simp_all
      from round_even_bounds [OF this] show ?thesis unfolding n_def by linarith
    next
      case False
      with qq have "of_int (- (2 ^ 53)) \<le> q" "q \<le> of_int (- (2 ^ 52))" using q by simp_all
      from round_even_bounds [OF this] show ?thesis unfolding n_def by linarith
    qed
  qed
  have "b64_round v = of_int n * (b64_unit * 2 ^ b64_exponent v)"
    by (simp add: b64_round_def n_def q_def b64_ulp_def)
  with n big show ?thesis by (intro exI [of _ n]) auto
qed


lemma b64_round_formE:
  obtains n where "b64_round v = of_int n * (b64_unit * 2 ^ b64_exponent v)"
    and "\<bar>n\<bar> \<le> 2 ^ 53" and "0 < b64_exponent v \<longrightarrow> 2 ^ 52 \<le> \<bar>n\<bar>"
proof -
  from b64_round_form [of v] obtain n
    where *: "b64_round v = of_int n * (b64_unit * 2 ^ b64_exponent v) \<and> \<bar>n\<bar> \<le> 2 ^ 53
       \<and> (0 < b64_exponent v \<longrightarrow> 2 ^ 52 \<le> \<bar>n\<bar>)" ..
  from * have 1: "b64_round v = of_int n * (b64_unit * 2 ^ b64_exponent v)" ..
  from * have "\<bar>n\<bar> \<le> 2 ^ 53 \<and> (0 < b64_exponent v \<longrightarrow> 2 ^ 52 \<le> \<bar>n\<bar>)" ..
  then have 2: "\<bar>n\<bar> \<le> 2 ^ 53" and 3: "0 < b64_exponent v \<longrightarrow> 2 ^ 52 \<le> \<bar>n\<bar>"
    by (rule conjunct1, rule conjunct2)
  from 1 2 3 show thesis by (rule that)
qed

lemma grid_fixed:
  assumes "\<bar>m\<bar> \<le> 2 ^ 53"
  shows "b64_round (of_int m * (b64_unit * 2 ^ j)) = of_int m * (b64_unit * 2 ^ j)"
  using b64_round_nearest [OF assms, of "of_int m * (b64_unit * 2 ^ j)" j] by simp


lemma b64_round_idem: "b64_round (b64_round v) = b64_round v"
proof -
  obtain n where "b64_round v = of_int n * (b64_unit * 2 ^ b64_exponent v)" "\<bar>n\<bar> \<le> 2 ^ 53"
    by (rule b64_round_formE)
  then show ?thesis by (simp add: grid_fixed)
qed





lemma b64_Some_iff: "b64 v = Some r \<longleftrightarrow> r = b64_round v \<and> \<bar>r\<bar> < b64_overflow"
proof
  assume "b64 v = Some r"
  then show "r = b64_round v \<and> \<bar>r\<bar> < b64_overflow"
    unfolding b64_def Let_def by (cases "\<bar>b64_round v\<bar> < b64_overflow") simp_all
next
  assume *: "r = b64_round v \<and> \<bar>r\<bar> < b64_overflow"
  then have "r = b64_round v" "\<bar>b64_round v\<bar> < b64_overflow" by auto
  then show "b64 v = Some r"
    unfolding b64_def Let_def by simp
qed

lemma is_b64_iff: "is_b64 v \<longleftrightarrow> b64_round v = v \<and> \<bar>v\<bar> < b64_overflow"
  by (auto simp: is_b64_def b64_Some_iff)

lemma b64_result_is_b64: "b64 v = Some r \<Longrightarrow> is_b64 r"
  by (auto simp: b64_Some_iff is_b64_iff b64_round_idem)



lemma b64_overflow_big: "2 ^ 53 < b64_overflow"
  by (simp add: b64_overflow_def)

lemma is_b64_dyadic:
  assumes "\<bar>m\<bar> \<le> 2 ^ 53" and "j \<le> 1074"
  shows "is_b64 (of_int m / 2 ^ j)"
proof -
  define S :: real where "S = 2 ^ 1074"
  have U: "b64_unit = 1 / S"
    by (simp add: b64_unit_def S_def)
  have S: "S = 2 ^ (1074 - j) * 2 ^ j"
    using assms(2) by (simp add: S_def flip: power_add)
  have eq: "of_int m / 2 ^ j = of_int m * (b64_unit * 2 ^ (1074 - j))"
    unfolding U by (subst S) simp
  have "\<bar>real_of_int m\<bar> / 2 ^ j \<le> \<bar>real_of_int m\<bar> / 1"
    by (rule frac_le) simp_all
  then have "\<bar>real_of_int m / 2 ^ j\<bar> \<le> \<bar>real_of_int m\<bar>"
    by (simp add: abs_divide)
  also have "\<dots> \<le> 2 ^ 53"
  proof -
    have "real_of_int \<bar>m\<bar> \<le> real_of_int (2 ^ 53)"
      using assms(1) by (simp only: of_int_le_iff)
    then show ?thesis by simp
  qed
  also note b64_overflow_big
  finally have "\<bar>real_of_int m / 2 ^ j\<bar> < b64_overflow" .
  moreover have "b64_round (of_int m / 2 ^ j) = of_int m / 2 ^ j"
    unfolding eq using assms(1) by (rule grid_fixed)
  ultimately show ?thesis by (simp add: is_b64_iff)
qed

section \<open>The chase in binary64\<close>






lemma chase_exact:
  assumes "is_b64 (r - a)" and "is_b64 ((r - a) * f)" and "is_b64 (a + (r - a) * f)"
  shows "chase_b64 f r a = Some (a + (r - a) * f)"
  using assms by (simp add: chase_b64_def is_b64_def)








lemma advance_b64_Some:
  "advance_b64 f raw d = Some d' \<longleftrightarrow>
     chase_b64 f (x raw) (x d) = Some (x d') \<and> chase_b64 f (y raw) (y d) = Some (y d')"
  by (cases d') (auto simp: advance_b64_def split: option.splits)




lemma advance_b64_exact:
  assumes "is_b64 (x raw - x d)" "is_b64 ((x raw - x d) * f)" "is_b64 (x d + (x raw - x d) * f)"
    and "is_b64 (y raw - y d)" "is_b64 ((y raw - y d) * f)" "is_b64 (y d + (y raw - y d) * f)"
  shows "advance_b64 f raw d = Some (advance f raw d)"
  using assms by (simp add: advance_b64_Some chase_exact advance_def Let_def)


















lemma dyadic_values:
  "is_b64 0" "is_b64 100" "is_b64 75" "is_b64 25" "is_b64 (75 / 4)" "is_b64 (375 / 4)"
  "is_b64 (25 / 4)" "is_b64 (75 / 16)" "is_b64 (1575 / 16)" "is_b64 (25 / 16)"
  "is_b64 (75 / 64)" "is_b64 (6375 / 64)"
  using is_b64_dyadic [of 0 0] is_b64_dyadic [of 100 0] is_b64_dyadic [of 75 0]
    is_b64_dyadic [of 25 0] is_b64_dyadic [of 75 2] is_b64_dyadic [of 375 2]
    is_b64_dyadic [of 25 2] is_b64_dyadic [of 75 4] is_b64_dyadic [of 1575 4]
    is_b64_dyadic [of 25 4] is_b64_dyadic [of 75 6] is_b64_dyadic [of 6375 6]
  by simp_all

text \<open>The four sub-steps of the frame from (0, 0) towards (100, 0) are exact in binary64:
  the rounded chase gives the values of the chase over the reals.\<close>

lemma frame_steps_binary64:
  "advance_b64 SMOOTHING_FACTOR \<lparr>x = 100, y = 0\<rparr> \<lparr>x = 0, y = 0\<rparr> = Some \<lparr>x = 75, y = 0\<rparr>"
  "advance_b64 SMOOTHING_FACTOR \<lparr>x = 100, y = 0\<rparr> \<lparr>x = 75, y = 0\<rparr> = Some \<lparr>x = 375 / 4, y = 0\<rparr>"
  "advance_b64 SMOOTHING_FACTOR \<lparr>x = 100, y = 0\<rparr> \<lparr>x = 375 / 4, y = 0\<rparr> =
     Some \<lparr>x = 1575 / 16, y = 0\<rparr>"
  "advance_b64 SMOOTHING_FACTOR \<lparr>x = 100, y = 0\<rparr> \<lparr>x = 1575 / 16, y = 0\<rparr> =
     Some \<lparr>x = 6375 / 64, y = 0\<rparr>"
  by (subst advance_b64_exact; simp add: dyadic_values SMOOTHING_FACTOR_def advance_def)+

lemma one_frame_binary64:
  "advance_b64_n ITERATIONS_PER_FRAME SMOOTHING_FACTOR \<lparr>x = 100, y = 0\<rparr> \<lparr>x = 0, y = 0\<rparr> =
     Some \<lparr>x = 99.609375, y = 0\<rparr>"
  by (simp add: ITERATIONS_PER_FRAME_def numeral_eq_Suc frame_steps_binary64)




section \<open>One frame towards a fixed target\<close>

text \<open>C7: with the display position at (0, 0) and the raw target at (100, 0), one frame of
  the enabled loop on a desktop device, with 4 iterations and factor 0.75, leaves
  \<open>display.x = 100 * (1 - 0.25 ^ 4) = 99.609375\<close> and puts four new points in front of the
  history, created with the ids \<open>pointId\<close>, \<open>pointId + 1\<close>, \<open>pointId + 2\<close> and
  \<open>pointId + 3\<close> in this order, at x = 75, 93.75, 98.4375 and 99.609375.\<close>

theorem one_frame_scenario:
  assumes "isEnabled s" and "isDesktop s"
    and "displayPos s = \<lparr>x = 0, y = 0\<rparr>" and "rawPos s = \<lparr>x = 100, y = 0\<rparr>"
  shows "ITERATIONS_PER_FRAME = 4 \<and> SMOOTHING_FACTOR = 0.75
       \<and> x (displayPos (loop s)) = 100 * (1 - 0.25 ^ 4)
       \<and> displayPos (loop s) = \<lparr>x = 99.609375, y = 0\<rparr>
       \<and> points (loop s) =
           take MAX_POINTS
             ([\<lparr>x = 99.609375, y = 0, id' = pointId s + 3\<rparr>,
               \<lparr>x = 98.4375, y = 0, id' = pointId s + 2\<rparr>,
               \<lparr>x = 93.75, y = 0, id' = pointId s + 1\<rparr>,
               \<lparr>x = 75, y = 0, id' = pointId s\<rparr>] @ points s)
       \<and> pointId (loop s) = pointId s + 4
       \<and> length (points (loop s)) = min MAX_POINTS (length (points s) + 4)"
proof -
  have "(100::real) * (1 - 0.25 ^ 4) = 99.609375"
    by (simp add: power4_eq_xxxx)
  moreover have "SMOOTHING_FACTOR = 0.75" "ITERATIONS_PER_FRAME = 4"
    by (simp_all add: SMOOTHING_FACTOR_def ITERATIONS_PER_FRAME_def)
  moreover have "displayPos (loop s) = \<lparr>x = 99.609375, y = 0\<rparr>"
    using assms by (simp add: loop_active Let_def advance_def SMOOTHING_FACTOR_def)
  moreover have "points (loop s) =
           take MAX_POINTS
             ([\<lparr>x = 99.609375, y = 0, id' = pointId s + 3\<rparr>,
               \<lparr>x = 98.4375, y = 0, id' = pointId s + 2\<rparr>,
               \<lparr>x = 93.75, y = 0, id' = pointId s + 1\<rparr>,
               \<lparr>x = 75, y = 0, id' = pointId s\<rparr>] @ points s)"
    using assms by (simp add: loop_active Let_def advance_def SMOOTHING_FACTOR_def)
  ultimately show ?thesis
    using assms(1,2) by (simp add: loop_counts)
qed

theorem one_frame_scenario_witness:
  "displayPos (run initial_state [MouseMove \<lparr>clientX = 100, clientY = 0\<rparr>, Frame])
     = \<lparr>x = 99.609375, y = 0\<rparr>
   \<and> points (run initial_state [MouseMove \<lparr>clientX = 100, clientY = 0\<rparr>, Frame]) =
       [\<lparr>x = 99.609375, y = 0, id' = 3\<rparr>, \<lparr>x = 98.4375, y = 0, id' = 2\<rparr>,
        \<lparr>x = 93.75, y = 0, id' = 1\<rparr>, \<lparr>x = 75, y = 0, id' = 0\<rparr>]"
  using one_frame_scenario [of "onMouse initial_state \<lparr>clientX = 100, clientY = 0\<rparr>"]
  by (simp add: run_def onMouse_def initial_state_def MAX_POINTS_def
        ITERATIONS_PER_FRAME_def SMOOTHING_FACTOR_def)

section \<open>The two loops of the curve stages\<close>

declare window_loop.simps [simp del] smooth_loop.simps [simp del] path_loop.simps [simp del]

lemma at_index_nat: "n < length xs \<Longrightarrow> at_index xs (int n) = Inr (xs ! n)"
  by (simp add: at_index_def)

lemma window_loop_sum:
  "j \<le> Suc i \<Longrightarrow> i < length pts \<Longrightarrow>
   window_loop pts (int i) (int j) (sx, sy, c) =
     Inr (sx + sum_list (map (\<lambda>k. x (pts ! k)) [j..<Suc i]),
          sy + sum_list (map (\<lambda>k. y (pts ! k)) [j..<Suc i]),
          c + length [j..<Suc i])"
proof (induction "Suc i - j" arbitrary: j sx sy c)
  case 0
  then have "j = Suc i" by simp
  then show ?case by (simp add: window_loop.simps)
next
  case (Suc n)
  then have lt: "j \<le> i" and jl: "j < length pts" by simp_all
  have step: "window_loop pts (int i) (int j) (sx, sy, c) =
      window_loop pts (int i) (int (Suc j)) (sx + x (pts ! j), sy + y (pts ! j), c + 1)"
    using lt jl by (subst window_loop.simps) (simp add: at_index_nat add.commute)
  have "n = Suc i - Suc j" "Suc j \<le> Suc i"
    using Suc.hyps(2) lt by simp_all
  note IH = Suc.hyps(1) [OF this Suc.prems(2)]
  have split: "[j..<Suc i] = j # [Suc j..<Suc i]"
    using lt by (simp add: upt_conv_Cons del: upt_Suc)
  note step
  also note IH
  also have "Inr (sx + x (pts ! j) + sum_list (map (\<lambda>k. x (pts ! k)) [Suc j..<Suc i]),
          sy + y (pts ! j) + sum_list (map (\<lambda>k. y (pts ! k)) [Suc j..<Suc i]),
          c + 1 + length [Suc j..<Suc i]) =
     (Inr (sx + sum_list (map (\<lambda>k. x (pts ! k)) [j..<Suc i]),
          sy + sum_list (map (\<lambda>k. y (pts ! k)) [j..<Suc i]),
          c + length [j..<Suc i]) :: js_error + real \<times> real \<times> nat)"
    unfolding split by (simp del: upt_Suc)
  finally show ?case .
qed


lemma smooth_loop_step:
  assumes "1 \<le> W" and "i < length pts"
  shows "smooth_loop pts W (int i) acc =
     smooth_loop pts W (int (Suc i))
       (acc @ [\<lparr>x = window_mean x pts W i, y = window_mean y pts W i, id' = id' (pts ! i)\<rparr>])"
proof -
  define lo where "lo = nat (max 0 (int i - W + 1))"
  have lo: "max 0 (int i - W + 1) = int lo" and le: "lo \<le> i"
    using assms(1) by (simp_all add: lo_def)
  have win: "window_loop pts (int i) (max 0 (int i - W + 1)) (0, 0, 0) =
      Inr (sum_list (map (\<lambda>k. x (pts ! k)) [lo..<Suc i]),
           sum_list (map (\<lambda>k. y (pts ! k)) [lo..<Suc i]),
           length [lo..<Suc i])"
    unfolding lo using window_loop_sum [of lo i pts 0 0 0] le assms(2) by simp
  have pos: "length [lo..<Suc i] \<noteq> 0"
    using le by simp
  have mean: "window_mean f pts W i =
      sum_list (map (\<lambda>k. f (pts ! k)) [lo..<Suc i]) / real (length [lo..<Suc i])" for f
    by (simp add: window_mean_def lo_def Let_def)
  show ?thesis
    apply (subst smooth_loop.simps)
    apply (simp only: win mean)
    using assms(2) pos apply (simp add: at_index_nat add.commute del: upt_Suc)
    done
qed

lemma smooth_loop_eq:
  assumes "1 \<le> W"
  shows "i \<le> length pts \<Longrightarrow>
     smooth_loop pts W (int i) acc =
       Inr (acc @ map (\<lambda>k. \<lparr>x = window_mean x pts W k, y = window_mean y pts W k,
                              id' = id' (pts ! k)\<rparr>) [i..<length pts])"
proof (induction "length pts - i" arbitrary: i acc)
  case 0
  then have "i = length pts" by simp
  then show ?case by (simp add: smooth_loop.simps)
next
  case (Suc n)
  then have lt: "i < length pts" by simp
  have "n = length pts - Suc i" "Suc i \<le> length pts"
    using Suc.hyps(2) lt by simp_all
  note IH = Suc.hyps(1) [OF this]
  have split: "[i..<length pts] = i # [Suc i..<length pts]"
    using lt by (simp add: upt_conv_Cons)
  show ?case
    unfolding smooth_loop_step [OF assms lt] IH split by simp
qed

lemma smoothPoints_eq:
  assumes "1 \<le> W"
  shows "smoothPoints pts (Some W) = Inr (if length pts < 2 then pts else moving_average pts W)"
  using smooth_loop_eq [OF assms, of 0 pts "[]"]
  by (simp add: smoothPoints_def moving_average_def)

lemma smoothPoints_default: "smoothPoints pts None = smoothPoints pts (Some 6)"
  by (simp add: smoothPoints_def)

lemma length_moving_average: "length (moving_average pts W) = length pts"
  by (simp add: moving_average_def)


lemma path_loop_step:
  assumes "Suc i < length pts"
  shows "path_loop fmt pts (int i) d =
     path_loop fmt pts (int (Suc i)) (d @ path_text fmt (spline_segment pts i))"
proof -
  have idx: "at_index pts (int i) = Inr (pts ! i)"
    "at_index pts (int i + 1) = Inr (pts ! Suc i)"
    "0 < i \<Longrightarrow> at_index pts (int i - 1) = Inr (pts ! (i - 1))"
    "i + 2 < length pts \<Longrightarrow> at_index pts (int i + 2) = Inr (pts ! (i + 2))"
    using assms by (simp_all add: at_index_def nat_add_distrib nat_diff_distrib)
  have cond: "int i < int (length pts) - 1" "(int i < int (length pts) - 2) = (i + 2 < length pts)"
    using assms by auto
  show ?thesis
    apply (subst path_loop.simps)
    apply (cases "i = 0"; cases "i + 2 < length pts")
    using cond idx
       apply (simp_all add: Let_def spline_segment_def pos_def vadd_def vsub_def vdiv_def add.commute)
    done
qed

lemma path_loop_eq:
  "Suc i \<le> length pts \<Longrightarrow>
     path_loop fmt pts (int i) d =
       Inr (d @ concat (map (\<lambda>k. path_text fmt (spline_segment pts k)) [i..<length pts - 1]))"
proof (induction "length pts - Suc i" arbitrary: i d)
  case 0
  then have "Suc i = length pts" by simp
  then have "\<not> int i < int (length pts) - 1" "[i..<length pts - 1] = []" by auto
  then show ?case by (simp add: path_loop.simps)
next
  case (Suc n)
  then have lt: "Suc i < length pts" by simp
  have "n = length pts - Suc (Suc i)" "Suc (Suc i) \<le> length pts"
    using Suc.hyps(2) lt by simp_all
  note IH = Suc.hyps(1) [OF this]
  have split: "[i..<length pts - 1] = i # [Suc i..<length pts - 1]"
    using lt by (simp add: upt_conv_Cons)
  show ?case
    unfolding path_loop_step [OF lt] IH split by simp
qed

lemma generateSmoothPath_eq:
  "generateSmoothPath fmt pts =
     Inr (if length pts < 2 then [] else concat (map (path_text fmt) (spline_path pts)))"
proof (cases "length pts < 2")
  case True
  then show ?thesis by (simp add: generateSmoothPath_def)
next
  case False
  then have "Suc 0 \<le> length pts" "0 < length pts" by auto
  then show ?thesis
    using False path_loop_eq [of 0 pts fmt] at_index_nat [of 0 pts]
    by (simp add: generateSmoothPath_def spline_path_def pos_def comp_def)
qed

declare digits.simps [simp del]

section \<open>Smoothing and path\<close>






lemma spline_path_nth:
  "i + 1 < length pts \<Longrightarrow> spline_path pts ! (i + 1) = spline_segment pts i"
  by (simp add: spline_path_def)

text \<open>C5: for at least 2 points the generated text is that of a move to the first point
  followed by one cubic segment per consecutive pair \<open>(p1, p2)\<close>, with the control points
  \<open>p1 + (p2 - p0) / 6\<close> and \<open>p2 - (p3 - p1) / 6\<close>, where \<open>p0\<close> is \<open>p1\<close> at the start and
  \<open>p3\<close> is \<open>p2\<close> at the end, and with the end point \<open>p2\<close>.\<close>

theorem catmull_rom_path:
  assumes "2 \<le> length pts"
  shows "generateSmoothPath fmt pts = Inr (concat (map (path_text fmt) (spline_path pts)))
       \<and> length (spline_path pts) = length pts
       \<and> spline_path pts ! 0 = MoveTo (pos (pts ! 0))
       \<and> (\<forall>i. i + 1 < length pts \<longrightarrow>
             (let p1 = pos (pts ! i);
                  p2 = pos (pts ! (i + 1));
                  p0 = (if i = 0 then p1 else pos (pts ! (i - 1)));
                  p3 = (if i + 2 < length pts then pos (pts ! (i + 2)) else p2)
              in spline_path pts ! (i + 1) =
                   CurveTo \<lparr>x = x p1 + (x p2 - x p0) / 6, y = y p1 + (y p2 - y p0) / 6\<rparr>
                           \<lparr>x = x p2 - (x p3 - x p1) / 6, y = y p2 - (y p3 - y p1) / 6\<rparr>
                           p2))"
proof -
  have 1: "generateSmoothPath fmt pts = Inr (concat (map (path_text fmt) (spline_path pts)))"
    using assms by (simp add: generateSmoothPath_eq)
  have 2: "length (spline_path pts) = length pts"
    using assms by (simp add: spline_path_def)
  have 3: "spline_path pts ! 0 = MoveTo (pos (pts ! 0))"
    by (simp add: spline_path_def)
  have 4: "\<forall>i. i + 1 < length pts \<longrightarrow>
             (let p1 = pos (pts ! i);
                  p2 = pos (pts ! (i + 1));
                  p0 = (if i = 0 then p1 else pos (pts ! (i - 1)));
                  p3 = (if i + 2 < length pts then pos (pts ! (i + 2)) else p2)
              in spline_path pts ! (i + 1) =
                   CurveTo \<lparr>x = x p1 + (x p2 - x p0) / 6, y = y p1 + (y p2 - y p0) / 6\<rparr>
                           \<lparr>x = x p2 - (x p3 - x p1) / 6, y = y p2 - (y p3 - y p1) / 6\<rparr>
                           p2)"
  proof (intro allI impI)
    fix i
    assume "i + 1 < length pts"
    then have "spline_path pts ! (i + 1) = spline_segment pts i"
      by (rule spline_path_nth)
    then show "let p1 = pos (pts ! i);
                  p2 = pos (pts ! (i + 1));
                  p0 = (if i = 0 then p1 else pos (pts ! (i - 1)));
                  p3 = (if i + 2 < length pts then pos (pts ! (i + 2)) else p2)
              in spline_path pts ! (i + 1) =
                   CurveTo \<lparr>x = x p1 + (x p2 - x p0) / 6, y = y p1 + (y p2 - y p0) / 6\<rparr>
                           \<lparr>x = x p2 - (x p3 - x p1) / 6, y = y p2 - (y p3 - y p1) / 6\<rparr>
                           p2"
      by (simp add: spline_segment_def Let_def vadd_def vsub_def vdiv_def)
  qed
  from 1 2 3 4 show ?thesis by blast
qed

theorem catmull_rom_path_witness:
  "generateSmoothPath fmt_whole
     [\<lparr>x = 0, y = 0, id' = 2\<rparr>, \<lparr>x = 6, y = 12, id' = 1\<rparr>, \<lparr>x = 18, y = 6, id' = 0\<rparr>]
   = Inr ''M 0 0 C 1 2, 3 11, 6 12 C 9 13, 16 7, 18 6''"
  using catmull_rom_path
    [of "[\<lparr>x = 0, y = 0, id' = 2\<rparr>, \<lparr>x = 6, y = 12, id' = 1\<rparr>, \<lparr>x = 18, y = 6, id' = 0\<rparr>]"
        fmt_whole]
  by (simp add: spline_path_def spline_segment_def pos_def vadd_def vsub_def vdiv_def
        fmt_whole_def digits.simps upt_rec)

text \<open>C6: on fewer than 2 points \<open>smoothPoints\<close> returns its input, whatever the window
  size, and \<open>generateSmoothPath\<close> returns the empty text.\<close>

theorem short_input_noop:
  assumes "length pts < 2"
  shows "smoothPoints pts w = Inr pts \<and> generateSmoothPath fmt pts = Inr []"
  using assms by (simp add: smoothPoints_def generateSmoothPath_def)

theorem short_input_noop_witness:
  "smoothPoints [\<lparr>x = 3, y = 4, id' = 0\<rparr>] None = Inr [\<lparr>x = 3, y = 4, id' = 0\<rparr>]
   \<and> generateSmoothPath fmt_whole [\<lparr>x = 3, y = 4, id' = 0\<rparr>] = Inr []
   \<and> smoothPoints [] None = Inr [] \<and> generateSmoothPath fmt_whole [] = Inr []"
  using short_input_noop [of "[\<lparr>x = 3, y = 4, id' = 0\<rparr>]" None fmt_whole]
    short_input_noop [of "[]" None fmt_whole]
  by simp

section \<open>Render and the inactive states\<close>

lemma render_eq:
  "render fmt s =
     Inr (if \<not> isDesktop s then Null
          else (let path = (if length (points s) < 2 then []
                            else concat (map (path_text fmt)
                                   (spline_path (moving_average (points s) 6))))
                in Fragment path (if isEnabled s then [path, path] else [])))"
  by (simp add: render_def smoothPoints_default smoothPoints_eq generateSmoothPath_eq
        length_moving_average Let_def)

text \<open>C8 as stated fails: after a mouse move, a frame and a click on the toggle the effect
  is disabled on a desktop device, and the render computes the path of the four points in
  the history; it only leaves the two path elements out of the tree.\<close>

theorem disabled_render_counterexample:
  "\<not> isEnabled (run initial_state [MouseMove \<lparr>clientX = 6144, clientY = 0\<rparr>, Frame, Click])
   \<and> isDesktop (run initial_state [MouseMove \<lparr>clientX = 6144, clientY = 0\<rparr>, Frame, Click])
   \<and> render fmt_whole
        (run initial_state [MouseMove \<lparr>clientX = 6144, clientY = 0\<rparr>, Frame, Click]) =
      Inr (Fragment
        ''M 6120 0 C 6114 0, 6108 0, 6084 0 C 6060 0, 6051 0, 5976 0 C 5901 0, 5691 0, 5634 0''
        [])
   \<and> render fmt_whole
        (run initial_state [MouseMove \<lparr>clientX = 6144, clientY = 0\<rparr>, Frame, Click])
       \<noteq> Inr Null"
  apply (simp add: run_def onMouse_def initial_state_def loop_active onClick_def Let_def
      advance_def SMOOTHING_FACTOR_def MAX_POINTS_def)
  apply (simp add: render_eq moving_average_def window_mean_def upt_rec)
  apply (simp add: spline_path_def spline_segment_def pos_def vadd_def vsub_def vdiv_def
      fmt_whole_def digits.simps upt_rec)
  done

text \<open>C8, amended: when the effect is disabled or the device is no desktop, a frame leaves
  the state as it is, so neither the display position nor the history changes. On a
  device that is no desktop the render returns \<open>null\<close> and computes no path; on a desktop
  device with the effect disabled it computes the path from the smoothed history and
  returns a fragment without path elements.\<close>

theorem inactive_frame_and_render:
  assumes "\<not> (isEnabled s \<and> isDesktop s)"
  shows "loop s = s \<and> displayPos (loop s) = displayPos s \<and> points (loop s) = points s
       \<and> (\<not> isDesktop s \<longrightarrow> render fmt s = Inr Null)
       \<and> (isDesktop s \<longrightarrow>
            (\<exists>smoothed path.
                smoothPoints (points s) None = Inr smoothed
              \<and> generateSmoothPath fmt smoothed = Inr path
              \<and> render fmt s = Inr (Fragment path [])))"
proof -
  have 1: "loop s = s"
    by (rule loop_inactive [OF assms])
  have 2: "\<not> isDesktop s \<longrightarrow> render fmt s = Inr Null"
    by (simp add: render_def)
  have 3: "isDesktop s \<longrightarrow>
            (\<exists>smoothed path.
                smoothPoints (points s) None = Inr smoothed
              \<and> generateSmoothPath fmt smoothed = Inr path
              \<and> render fmt s = Inr (Fragment path []))"
    using assms
    by (simp add: render_def smoothPoints_default smoothPoints_eq generateSmoothPath_eq)
  from 1 2 3 show ?thesis by simp
qed

theorem inactive_frame_and_render_witness:
  "loop (onClick initial_state) = onClick initial_state
   \<and> render fmt_whole (onClick initial_state) = Inr (Fragment [] [])
   \<and> loop (check initial_state False) = check initial_state False
   \<and> render fmt_whole (check initial_state False) = Inr Null"
  using inactive_frame_and_render [of "onClick initial_state" fmt_whole]
    inactive_frame_and_render [of "check initial_state False" fmt_whole]
  by (simp add: onClick_def check_def initial_state_def generateSmoothPath_def
        smoothPoints_def)

section \<open>The input handlers\<close>

text \<open>C9 as stated fails: with the effect disabled by a click, a mouse move to (5, 7)
  leaves the raw position at (0, 0).\<close>

theorem record_raw_counterexample:
  "rawPos (dispatch (dispatch initial_state Click) (MouseMove \<lparr>clientX = 5, clientY = 7\<rparr>))
     = \<lparr>x = 0, y = 0\<rparr>
   \<and> rawPos (dispatch (dispatch initial_state Click) (MouseMove \<lparr>clientX = 5, clientY = 7\<rparr>))
     \<noteq> \<lparr>x = 5, y = 7\<rparr>"
  by (simp add: onClick_def onMouse_def initial_state_def)

text \<open>C9, amended: a touch move writes the coordinates of its first touch to the raw
  position in every state; a mouse move writes its coordinates when the device is a
  desktop and the effect is enabled, and leaves the raw position as it is otherwise.\<close>

theorem record_raw:
  "rawPos (dispatch s (TouchMove (t # ts))) = \<lparr>x = clientX t, y = clientY t\<rparr>
   \<and> (isDesktop s \<and> isEnabled s \<longrightarrow>
        rawPos (dispatch s (MouseMove e)) = \<lparr>x = clientX e, y = clientY e\<rparr>)
   \<and> (\<not> (isDesktop s \<and> isEnabled s) \<longrightarrow> rawPos (dispatch s (MouseMove e)) = rawPos s)"
  by (simp add: onTouch_def onMouse_def at_index_def)

theorem record_raw_witness:
  "rawPos (dispatch (dispatch initial_state Click)
             (TouchMove [\<lparr>clientX = 5, clientY = 7\<rparr>])) = \<lparr>x = 5, y = 7\<rparr>
   \<and> rawPos (dispatch initial_state (MouseMove \<lparr>clientX = 5, clientY = 7\<rparr>)) = \<lparr>x = 5, y = 7\<rparr>
   \<and> rawPos (dispatch (dispatch initial_state (Resize False))
               (MouseMove \<lparr>clientX = 5, clientY = 7\<rparr>)) = \<lparr>x = 0, y = 0\<rparr>"
  using record_raw [of "dispatch initial_state Click" "\<lparr>clientX = 5, clientY = 7\<rparr>" "[]"]
    record_raw [of initial_state _ _ "\<lparr>clientX = 5, clientY = 7\<rparr>"]
    record_raw [of "dispatch initial_state (Resize False)" _ _ "\<lparr>clientX = 5, clientY = 7\<rparr>"]
  by (simp add: onClick_def check_def initial_state_def)

text \<open>C10: the two handlers differ in their preconditions. \<open>onTouch\<close> overwrites the raw
  position in every state, also with the effect disabled or on a device that is no
  desktop, where \<open>onMouse\<close> changes nothing; \<open>onMouse\<close> overwrites it only on a desktop
  device with the effect enabled.\<close>

theorem handlers_differ:
  "onTouch s (t # ts) = Inr (s\<lparr>rawPos := \<lparr>x = clientX t, y = clientY t\<rparr>\<rparr>)
   \<and> (\<not> (isDesktop s \<and> isEnabled s) \<longrightarrow>
         onMouse s e = s
       \<and> (\<exists>s'. onTouch s [\<lparr>clientX = clientX e, clientY = clientY e\<rparr>] = Inr s'
              \<and> rawPos s' = \<lparr>x = clientX e, y = clientY e\<rparr>))
   \<and> (isDesktop s \<and> isEnabled s \<longrightarrow>
         onMouse s e = s\<lparr>rawPos := \<lparr>x = clientX e, y = clientY e\<rparr>\<rparr>)
   \<and> (rawPos (onMouse s e) \<noteq> rawPos s \<longrightarrow> isDesktop s \<and> isEnabled s)"
  by (auto simp: onTouch_def onMouse_def at_index_def)

theorem handlers_differ_witness:
  "onMouse (onClick initial_state) \<lparr>clientX = 5, clientY = 7\<rparr> = onClick initial_state
   \<and> onTouch (onClick initial_state) [\<lparr>clientX = 5, clientY = 7\<rparr>]
       = Inr ((onClick initial_state)\<lparr>rawPos := \<lparr>x = 5, y = 7\<rparr>\<rparr>)
   \<and> onMouse initial_state \<lparr>clientX = 5, clientY = 7\<rparr>
       = initial_state\<lparr>rawPos := \<lparr>x = 5, y = 7\<rparr>\<rparr>"
  using handlers_differ [of "onClick initial_state" "\<lparr>clientX = 5, clientY = 7\<rparr>" "[]"
      "\<lparr>clientX = 5, clientY = 7\<rparr>"]
    handlers_differ [of initial_state _ _ "\<lparr>clientX = 5, clientY = 7\<rparr>"]
  by (simp add: onClick_def initial_state_def)

end
